theory Spec2Isabelle
  imports Main "HOL-Library.Word"
begin

section \<open>Go runtime and library functions used by msg/service.go\<close>

text \<open>
  Strings are byte sequences (\<open>string\<close> is \<open>char list\<close>, and \<open>length\<close> is Go's
  \<open>len\<close>). A slice expression of Go panics when its bounds are out of range; the two
  forms used by the package are modelled with that panic as a value.
\<close>

datatype panic = SliceBoundsOutOfRange

definition go_slice :: "'a list \<Rightarrow> nat \<Rightarrow> nat \<Rightarrow> panic + 'a list" where
  \<comment> \<open>\<open>s[lo:hi]\<close>\<close>
  "go_slice s lo hi =
     (if hi \<le> length s \<and> lo \<le> hi then Inr (take (hi - lo) (drop lo s))
      else Inl SliceBoundsOutOfRange)"

definition go_slice_from :: "'a list \<Rightarrow> nat \<Rightarrow> panic + 'a list" where
  \<comment> \<open>\<open>s[lo:]\<close>\<close>
  "go_slice_from s lo =
     (if lo \<le> length s then Inr (drop lo s) else Inl SliceBoundsOutOfRange)"

subsection \<open>Package strings\<close>

definition strings_Count :: "string \<Rightarrow> char \<Rightarrow> nat" where
  \<comment> \<open>\<open>strings.Count(s, sep)\<close> for a separator of one byte\<close>
  "strings_Count s sep = length (filter (\<lambda>c. c = sep) s)"

fun strings_Split :: "string \<Rightarrow> char \<Rightarrow> string list" where
  \<comment> \<open>\<open>strings.Split(s, sep)\<close> for a separator of one byte: one more piece than there
      are separators, so the empty string gives one empty piece\<close>
  "strings_Split [] sep = [[]]"
| "strings_Split (c # cs) sep =
     (if c = sep then [] # strings_Split cs sep
      else (c # hd (strings_Split cs sep)) # tl (strings_Split cs sep))"

fun strings_Join :: "string list \<Rightarrow> string \<Rightarrow> string" where
  "strings_Join [] sep = []"
| "strings_Join [a] sep = a"
| "strings_Join (a # b # bs) sep = a @ sep @ strings_Join (b # bs) sep"

subsection \<open>Package path\<close>

text \<open>
  \<open>path.Clean\<close>, byte by byte as the library does it. \<open>rest\<close> is the unread part
  \<open>path[r:]\<close>, \<open>out\<close> the bytes written so far (\<open>out.w\<close> is its length) and
  \<open>dotdot\<close> the index in \<open>out\<close> below which a \<open>..\<close> element does not backtrack.
\<close>

function Clean_backtrack :: "string \<Rightarrow> nat \<Rightarrow> nat \<Rightarrow> nat" where
  \<comment> \<open>\<open>for out.w > dotdot && out.index(out.w) != '/' { out.w-- }\<close>\<close>
  "Clean_backtrack out dotdot w =
     (if w > dotdot \<and> out ! w \<noteq> CHR ''/'' then Clean_backtrack out dotdot (w - 1) else w)"
  by pat_completeness auto
termination
  by (relation "measure (\<lambda>(out, dotdot, w). w)") auto

declare Clean_backtrack.simps [simp del]

definition Clean_step :: "bool \<Rightarrow> char \<Rightarrow> string \<Rightarrow> string \<times> nat \<Rightarrow> string \<times> string \<times> nat" where
  \<comment> \<open>one round of the loop \<open>for r < n { switch ... }\<close> on the unread bytes \<open>c # cs\<close>:
      the bytes left to read, the new \<open>out\<close> and the new \<open>dotdot\<close>\<close>
  "Clean_step rooted c cs st =
     (case st of (out, dotdot) \<Rightarrow>
        if c = CHR ''/'' then (cs, out, dotdot)
        else if c = CHR ''.'' \<and> (cs = [] \<or> hd cs = CHR ''/'') then (cs, out, dotdot)
        else if c = CHR ''.'' \<and> hd cs = CHR ''.'' \<and> (tl cs = [] \<or> hd (tl cs) = CHR ''/'') then
          (if length out > dotdot then
             (tl cs, take (Clean_backtrack out dotdot (length out - 1)) out, dotdot)
           else if \<not> rooted then
             (let out' = (if length out > 0 then out @ ''/'' else out) @ ''..''
              in (tl cs, out', length out'))
           else (tl cs, out, dotdot))
        else
          (let out' = (if rooted \<and> length out \<noteq> 1 \<or> \<not> rooted \<and> length out \<noteq> 0
                       then out @ ''/'' else out)
           in (dropWhile (\<lambda>x. x \<noteq> CHR ''/'') cs,
               out' @ c # takeWhile (\<lambda>x. x \<noteq> CHR ''/'') cs, dotdot)))"

function Clean_loop :: "bool \<Rightarrow> string \<Rightarrow> string \<times> nat \<Rightarrow> string" where
  "Clean_loop rooted rest st =
     (case rest of
        [] \<Rightarrow> fst st
      | c # cs \<Rightarrow>
          (case Clean_step rooted c cs st of
             (rest', st') \<Rightarrow> Clean_loop rooted rest' st'))"
  by pat_completeness auto
termination
proof (relation "measure (\<lambda>(rooted, rest, st). length rest)", goal_cases)
  case 1
  show ?case by simp
next
  case (2 rooted rest st c cs rest' st')
  have "length (fst (Clean_step rooted c cs st)) \<le> length cs"
    by (cases st) (simp add: Clean_step_def Let_def length_dropWhile_le)
  with 2 show ?case
    by (metis fst_conv in_measure le_imp_less_Suc length_Cons case_prod_conv)
qed

declare Clean_loop.simps [simp del]

definition path_Clean :: "string \<Rightarrow> string" where
  "path_Clean p =
     (if p = [] then ''.''
      else
        (let rooted = (p ! 0 = CHR ''/'');
             out = (if rooted then Clean_loop rooted (drop 1 p) (''/'', 1)
                    else Clean_loop rooted p ([], 0))
         in if length out = 0 then ''.'' else out))"

definition path_Join :: "string list \<Rightarrow> string" where
  \<comment> \<open>the elements from the first non-empty one on, joined by slashes and cleaned\<close>
  "path_Join elem =
     (case dropWhile (\<lambda>e. e = []) elem of
        [] \<Rightarrow> []
      | es \<Rightarrow> path_Clean (strings_Join es ''/''))"

subsection \<open>Package github.com/miekg/dns\<close>

text \<open>
  The label functions of the DNS library, as of the library version the package was
  written against. A dot preceded by an odd number of backslashes is escaped and does
  not end a label; the last byte of a name is never looked at as a separator.
\<close>

definition backslash :: char where
  "backslash = CHR 0x5C"

definition dns_IsFqdn :: "string \<Rightarrow> bool" where
  "dns_IsFqdn s = (if length s = 0 then False else s ! (length s - 1) = CHR ''.'')"

definition dns_Fqdn :: "string \<Rightarrow> string" where
  "dns_Fqdn s = (if dns_IsFqdn s then s else s @ ''.'')"

function NextLabel_loop :: "string \<Rightarrow> nat \<Rightarrow> bool \<Rightarrow> nat \<times> bool" where
  \<comment> \<open>\<open>for i = offset; i < len(s)-1; i++ { switch s[i] ... }\<close> with the flag \<open>quote\<close>\<close>
  "NextLabel_loop s i quote =
     (if i + 1 < length s then
        (if s ! i = backslash then NextLabel_loop s (i + 1) (\<not> quote)
         else if s ! i = CHR ''.'' then
           (if quote then NextLabel_loop s (i + 1) False else (i + 1, False))
         else NextLabel_loop s (i + 1) False)
      else (i + 1, True))"
  by pat_completeness auto
termination
  by (relation "measure (\<lambda>(s, i, quote). length s - i)") auto

declare NextLabel_loop.simps [simp del]

definition dns_NextLabel :: "string \<Rightarrow> nat \<Rightarrow> nat \<times> bool" where
  "dns_NextLabel s offset = NextLabel_loop s offset False"

function Split_loop :: "string \<Rightarrow> nat \<Rightarrow> nat list \<Rightarrow> nat list" where
  \<comment> \<open>\<open>for { off, end = NextLabel(s, off); if end { return idx }; idx = append(idx, off) }\<close>\<close>
  "Split_loop s off idx =
     (case dns_NextLabel s off of
        (off', end') \<Rightarrow> if end' then idx else Split_loop s off' (idx @ [off']))"
  by pat_completeness auto
termination
proof (relation "measure (\<lambda>(s, off, idx). length s - off)", goal_cases)
  case 1
  show ?case by simp
next
  case (2 s off idx off' end')
  have adv: "NextLabel_loop s i q = (r, False) \<Longrightarrow> i < r \<and> r < length s" for i q r
  proof (induction s i q rule: NextLabel_loop.induct)
    case (1 s i quote)
    show ?case
    proof (cases "i + 1 < length s")
      case False
      with "1.prems" show ?thesis
        by (simp add: NextLabel_loop.simps)
    next
      case lt: True
      show ?thesis
      proof (cases "s ! i = backslash")
        case True
        with lt "1.prems" have "NextLabel_loop s (i + 1) (\<not> quote) = (r, False)"
          by (subst (asm) NextLabel_loop.simps) simp
        from "1.IH"(1)[OF lt True this] show ?thesis by simp
      next
        case nb: False
        show ?thesis
        proof (cases "s ! i = CHR ''.''")
          case dot: True
          show ?thesis
          proof (cases quote)
            case True
            with lt nb dot "1.prems" have "NextLabel_loop s (i + 1) False = (r, False)"
              by (subst (asm) NextLabel_loop.simps) simp
            from "1.IH"(2)[OF lt nb dot True this] show ?thesis by simp
          next
            case False
            with lt nb dot "1.prems" have "r = i + 1"
              by (subst (asm) NextLabel_loop.simps) simp
            with lt show ?thesis by simp
          qed
        next
          case False
          with lt nb "1.prems" have "NextLabel_loop s (i + 1) False = (r, False)"
            by (subst (asm) NextLabel_loop.simps) simp
          from "1.IH"(3)[OF lt nb False this] show ?thesis by simp
        qed
      qed
    qed
  qed
  from 2 have "NextLabel_loop s off False = (off', False)"
    by (simp add: dns_NextLabel_def)
  from adv[OF this] show ?case by auto
qed

declare Split_loop.simps [simp del]

definition dns_Split :: "string \<Rightarrow> nat list" where
  "dns_Split s = (if s = ''.'' then [] else Split_loop s 0 [0])"

fun SplitDomainName_loop :: "string \<Rightarrow> nat list \<Rightarrow> nat \<Rightarrow> string list \<Rightarrow> string list \<times> nat" where
  \<comment> \<open>\<open>for i := 1; i < len(idx); i++ { end = idx[i]; labels = append(labels, s[begin:end-1]);
      begin = end }\<close>, over the indices \<open>idx[1:]\<close>\<close>
  "SplitDomainName_loop s [] begin labels = (labels, begin)"
| "SplitDomainName_loop s (end' # ends) begin labels =
     SplitDomainName_loop s ends end' (labels @ [take (end' - 1 - begin) (drop begin s)])"

definition dns_SplitDomainName :: "string \<Rightarrow> string list" where
  \<comment> \<open>the substrings \<open>s[begin:end-1]\<close> and \<open>s[begin:fqdnEnd]\<close> are within the name,
      since the indices of \<open>dns_Split\<close> increase and stay below its length\<close>
  "dns_SplitDomainName s =
     (if length s = 0 then []
      else
        (let idx = dns_Split s;
             fqdnEnd = (if s ! (length s - 1) = CHR ''.'' then length s - 1 else length s)
         in case idx of
              [] \<Rightarrow> []
            | _ # ends \<Rightarrow>
                (case SplitDomainName_loop s ends 0 [] of
                   (labels, begin) \<Rightarrow> labels @ [take (fqdnEnd - begin) (drop begin s)])))"

definition TypeA :: "16 word" where "TypeA = 1"
definition TypeNS :: "16 word" where "TypeNS = 2"
definition TypeCNAME :: "16 word" where "TypeCNAME = 5"
definition TypePTR :: "16 word" where "TypePTR = 12"
definition TypeTXT :: "16 word" where "TypeTXT = 16"
definition TypeAAAA :: "16 word" where "TypeAAAA = 28"
definition TypeSRV :: "16 word" where "TypeSRV = 33"
definition ClassINET :: "16 word" where "ClassINET = 1"

record dns_RR_Header =
  Hdr_Name :: string
  Hdr_Rrtype :: "16 word"
  Hdr_Class :: "16 word"
  Hdr_Ttl :: "32 word"
  Hdr_Rdlength :: "16 word"

record dns_SRV =
  SRV_Hdr :: dns_RR_Header
  SRV_Priority :: "16 word"
  SRV_Weight :: "16 word"
  SRV_Port :: "16 word"
  SRV_Target :: string

record dns_A =
  A_Hdr :: dns_RR_Header
  A_A :: "8 word list"

record dns_AAAA =
  AAAA_Hdr :: dns_RR_Header
  AAAA_AAAA :: "8 word list"

record dns_CNAME =
  CNAME_Hdr :: dns_RR_Header
  CNAME_Target :: string

record dns_NS =
  NS_Hdr :: dns_RR_Header
  NS_Ns :: string

record dns_TXT =
  TXT_Hdr :: dns_RR_Header
  TXT_Txt :: "string list"

record dns_PTR =
  PTR_Hdr :: dns_RR_Header
  PTR_Ptr :: string

section \<open>The Service record\<close>

text \<open>
  Go's \<open>int\<close> fields are modelled as \<open>int\<close>; the conversions \<open>uint16(...)\<close> that
  NewSRV applies keep the low 16 bits, which is what \<open>word_of_int\<close> does.
\<close>

record Service =
  Host :: string
  Port :: int
  Priority :: int
  Weight :: int
  Text :: string
  Ttl :: "32 word"
  TargetStrip :: int
  Group :: string
  Key :: string

section \<open>split255\<close>

text \<open>
  The loop \<open>for { ... }\<close> of split255 with its variables \<open>p\<close>, \<open>i\<close> and \<open>sx\<close>.
  It leaves through \<open>break\<close> as soon as \<open>i\<close> exceeds \<open>len(s)\<close>.
\<close>

function split255_loop :: "string \<Rightarrow> nat \<Rightarrow> nat \<Rightarrow> string list \<Rightarrow> panic + string list" where
  "split255_loop s p i sx =
     (if i \<le> length s then
        (case go_slice s p i of
           Inl e \<Rightarrow> Inl e
         | Inr c \<Rightarrow> split255_loop s (p + 255) (i + 255) (sx @ [c]))
      else
        (case go_slice_from s p of
           Inl e \<Rightarrow> Inl e
         | Inr c \<Rightarrow> Inr (sx @ [c])))"
  by pat_completeness auto
termination
  by (relation "measure (\<lambda>(s, p, i, sx). Suc (length s) - i)") auto

declare split255_loop.simps [simp del]

definition split255 :: "string \<Rightarrow> panic + string list" where
  "split255 s =
     (if length s < 255 then Inr [s] else split255_loop s 0 255 [])"

section \<open>Record synthesis\<close>

function NewSRV_loop :: "string \<Rightarrow> int \<Rightarrow> int \<Rightarrow> nat \<times> bool \<Rightarrow> nat \<times> bool" where
  \<comment> \<open>\<open>for i := 0; i < s.TargetStrip; i++ { offset, end = dns.NextLabel(host, offset) }\<close>\<close>
  "NewSRV_loop host strip i st =
     (if i < strip then NewSRV_loop host strip (i + 1) (dns_NextLabel host (fst st)) else st)"
  by pat_completeness auto
termination
  by (relation "measure (\<lambda>(host, strip, i, st). nat (strip - i))") auto

declare NewSRV_loop.simps [simp del]

definition NewSRV :: "Service \<Rightarrow> string \<Rightarrow> 16 word \<Rightarrow> panic + dns_SRV" where
  "NewSRV s name weight =
     (let host = dns_Fqdn (Host s);
          st = NewSRV_loop host (TargetStrip s) 0 (0, False);
          offset = (if snd st then 0 else fst st)
      in case go_slice_from host offset of
           Inl e \<Rightarrow> Inl e
         | Inr host' \<Rightarrow>
             Inr \<lparr>SRV_Hdr = \<lparr>Hdr_Name = name, Hdr_Rrtype = TypeSRV, Hdr_Class = ClassINET,
                              Hdr_Ttl = Ttl s, Hdr_Rdlength = 0\<rparr>,
                  SRV_Priority = word_of_int (Priority s), SRV_Weight = weight,
                  SRV_Port = word_of_int (Port s), SRV_Target = host'\<rparr>)"

definition NewA :: "Service \<Rightarrow> string \<Rightarrow> 8 word list \<Rightarrow> dns_A" where
  "NewA s name ip =
     \<lparr>A_Hdr = \<lparr>Hdr_Name = name, Hdr_Rrtype = TypeA, Hdr_Class = ClassINET,
                 Hdr_Ttl = Ttl s, Hdr_Rdlength = 0\<rparr>,
      A_A = ip\<rparr>"

definition NewAAAA :: "Service \<Rightarrow> string \<Rightarrow> 8 word list \<Rightarrow> dns_AAAA" where
  "NewAAAA s name ip =
     \<lparr>AAAA_Hdr = \<lparr>Hdr_Name = name, Hdr_Rrtype = TypeAAAA, Hdr_Class = ClassINET,
                    Hdr_Ttl = Ttl s, Hdr_Rdlength = 0\<rparr>,
      AAAA_AAAA = ip\<rparr>"

definition NewCNAME :: "Service \<Rightarrow> string \<Rightarrow> string \<Rightarrow> dns_CNAME" where
  "NewCNAME s name target =
     \<lparr>CNAME_Hdr = \<lparr>Hdr_Name = name, Hdr_Rrtype = TypeCNAME, Hdr_Class = ClassINET,
                     Hdr_Ttl = Ttl s, Hdr_Rdlength = 0\<rparr>,
      CNAME_Target = target\<rparr>"

definition NewNS :: "Service \<Rightarrow> string \<Rightarrow> string \<Rightarrow> dns_NS" where
  "NewNS s name target =
     \<lparr>NS_Hdr = \<lparr>Hdr_Name = name, Hdr_Rrtype = TypeNS, Hdr_Class = ClassINET,
                  Hdr_Ttl = Ttl s, Hdr_Rdlength = 0\<rparr>,
      NS_Ns = target\<rparr>"

definition NewTXT :: "Service \<Rightarrow> string \<Rightarrow> panic + dns_TXT" where
  "NewTXT s name =
     (case split255 (Text s) of
        Inl e \<Rightarrow> Inl e
      | Inr txt \<Rightarrow>
          Inr \<lparr>TXT_Hdr = \<lparr>Hdr_Name = name, Hdr_Rrtype = TypeTXT, Hdr_Class = ClassINET,
                           Hdr_Ttl = Ttl s, Hdr_Rdlength = 0\<rparr>,
               TXT_Txt = txt\<rparr>)"

definition NewPTR :: "Service \<Rightarrow> string \<Rightarrow> 32 word \<Rightarrow> dns_PTR" where
  "NewPTR s name ttl =
     \<lparr>PTR_Hdr = \<lparr>Hdr_Name = name, Hdr_Rrtype = TypePTR, Hdr_Class = ClassINET,
                   Hdr_Ttl = ttl, Hdr_Rdlength = 0\<rparr>,
      PTR_Ptr = dns_Fqdn (Host s)\<rparr>"

section \<open>Keys and domain names\<close>

function reverse_loop :: "'a list \<Rightarrow> nat \<Rightarrow> nat \<Rightarrow> 'a list" where
  \<comment> \<open>\<open>for i, j := ..., len(l)-1; i < j; i, j = i+1, j-1 { l[i], l[j] = l[j], l[i] }\<close>;
      for an empty \<open>l\<close> the loop is not entered, with \<open>j = -1\<close> in Go as with \<open>j = 0\<close> here\<close>
  "reverse_loop l i j =
     (if i < j then reverse_loop (l[i := l ! j, j := l ! i]) (i + 1) (j - 1) else l)"
  by pat_completeness auto
termination
  by (relation "measure (\<lambda>(l, i, j). j - i)") auto

declare reverse_loop.simps [simp del]

fun PathWithWildcard_loop :: "string list \<Rightarrow> nat \<Rightarrow> nat option" where
  \<comment> \<open>\<open>for i, k := range l { if k == "*" { return ... l[:i] ... } }\<close>: the index of the
      first wildcard label, if there is one\<close>
  "PathWithWildcard_loop [] i = None"
| "PathWithWildcard_loop (k # ks) i =
     (if k = ''*'' then Some i else PathWithWildcard_loop ks (i + 1))"

definition PathWithWildcard :: "string \<Rightarrow> string \<times> bool" where
  "PathWithWildcard s =
     (let l = dns_SplitDomainName s;
          l = reverse_loop l 0 (length l - 1)
      in case PathWithWildcard_loop l 0 of
           Some i \<Rightarrow> (path_Join ([''/skydns/''] @ take i l), True)
         | None \<Rightarrow> (path_Join ([''/skydns/''] @ l), False))"

definition Path :: "string \<Rightarrow> string" where
  "Path s =
     (let l = dns_SplitDomainName s;
          l = reverse_loop l 0 (length l - 1)
      in path_Join ([''/skydns/''] @ l))"


section \<open>Group selection\<close>

text \<open>
  The loop of Group. \<open>arr\<close> is the array behind the slice \<open>sx\<close>, which the loop reads
  at index \<open>i\<close>. Until \<open>count\<close> is cleared, \<open>ret\<close> is the fresh empty slice; from then
  on \<open>ret\<close> is \<open>sx[:n]\<close>, a slice of the same array, and \<open>append(ret, s)\<close> stores
  \<open>s\<close> at index \<open>n\<close> of that array (\<open>n\<close> is below its capacity). The state of the
  loop is the array with \<open>group\<close>, \<open>count\<close> and the length \<open>n\<close> of \<open>ret\<close>.
\<close>

type_synonym Group_state = "Service list \<times> string \<times> bool \<times> nat"

definition Group_body :: "nat \<Rightarrow> nat \<Rightarrow> Group_state \<Rightarrow> Service list + Group_state" where
  \<comment> \<open>one round of the loop at index \<open>i\<close>: \<open>Inl\<close> is a \<open>return\<close> from inside the loop,
      \<open>Inr\<close> the state for the next round\<close>
  "Group_body slashes i st =
     (case st of (arr, group', count, n) \<Rightarrow>
        (let s = arr ! i in
         if count \<and> strings_Count (Key s) CHR ''/'' = slashes \<and> Group s = [] then
           Inr (arr, group', count, n)
         else if count \<and> strings_Count (Key s) CHR ''/'' = slashes \<and> group' = [] then
           Inr (arr, Group s, count, n)
         else if count \<and> strings_Count (Key s) CHR ''/'' = slashes \<and>
                 Group s \<noteq> [] \<and> Group s \<noteq> group' then Inl arr
         else if group' = [] then Inl arr
         else
           (let n = (if count then i else n) in
            if Group s = [] \<or> Group s = group' then Inr (arr[n := s], group', False, n + 1)
            else Inr (arr, group', False, n))))"

function Group_loop :: "nat \<Rightarrow> nat \<Rightarrow> nat \<Rightarrow> Group_state \<Rightarrow> Service list" where
  \<comment> \<open>\<open>for i, s := range sx\<close>, where \<open>len\<close> is the length of \<open>sx\<close>; after the last
      round, \<open>return ret\<close>\<close>
  "Group_loop len slashes i st =
     (if i < len then
        (case Group_body slashes i st of
           Inl r \<Rightarrow> r
         | Inr st' \<Rightarrow> Group_loop len slashes (i + 1) st')
      else (case st of (arr, group', count, n) \<Rightarrow> take n arr))"
  by pat_completeness auto
termination
  by (relation "measure (\<lambda>(len, slashes, i, st). len - i)") simp_all

declare Group_loop.simps [simp del]

definition GroupSx :: "Service list \<Rightarrow> Service list" where
  "GroupSx sx =
     (if length sx = 0 then sx
      else Group_loop (length sx) (strings_Count (Key (sx ! 0)) CHR ''/'') 0 (sx, [], True, 0))"


section \<open>Labels of a name\<close>






section \<open>Well-formed names\<close>

text \<open>
  A label is well formed when it is not empty, has no slash, every dot in it is escaped
  by a backslash, no escape is left open at its end, and its last byte is not a dot.
  \<open>esc_state q l\<close> scans \<open>l\<close> as \<open>after_label\<close> does: \<open>None\<close> when it meets a dot
  that is not escaped, otherwise whether an escape is open at the end. Every non-empty
  label of letters, digits and hyphens is well formed. The fully-qualified name of a list
  of labels is each label followed by a dot, and \<open>.\<close> for the root.
\<close>

fun esc_state :: "bool \<Rightarrow> string \<Rightarrow> bool option" where
  "esc_state q [] = Some q"
| "esc_state q (c # cs) =
     (if c = CHR ''.'' \<and> \<not> q then None else esc_state (c = backslash \<and> \<not> q) cs)"

definition wf_label :: "string \<Rightarrow> bool" where
  "wf_label l =
     (l \<noteq> [] \<and> CHR ''/'' \<notin> set l \<and> esc_state False l = Some False \<and> last l \<noteq> CHR ''.'')"





section \<open>Example inputs\<close>

definition svc :: "string \<Rightarrow> string \<Rightarrow> Service" where
  \<comment> \<open>the composite literal \<open>Service{Key: k, Group: g}\<close>: the other fields are zero\<close>
  "svc k g = \<lparr>Host = [], Port = 0, Priority = 0, Weight = 0, Text = [], Ttl = 0,
              TargetStrip = 0, Group = g, Key = k\<rparr>"

section \<open>Text chunking\<close>

lemma split255_loop_chunks:
  "i = p + 255 \<Longrightarrow> p \<le> length s \<Longrightarrow>
   \<exists>cs. split255_loop s p i sx = Inr (sx @ cs) \<and> (\<forall>c\<in>set cs. length c \<le> 255) \<and>
        concat cs = drop p s"
proof (induction s p i sx rule: split255_loop.induct)
  case (1 s p i sx)
  show ?case
  proof (cases "i \<le> length s")
    case True
    have sl: "go_slice s p i = Inr (take 255 (drop p s))"
      using True "1.prems" by (simp add: go_slice_def)
    from "1.IH"[OF True sl] "1.prems" True
    obtain cs where cs: "split255_loop s (p + 255) (i + 255) (sx @ [take 255 (drop p s)]) =
        Inr ((sx @ [take 255 (drop p s)]) @ cs)"
      "\<forall>c\<in>set cs. length c \<le> 255" "concat cs = drop (p + 255) s"
      by auto
    have "take 255 (drop p s) @ drop (p + 255) s = drop p s"
      by (metis add.commute append_take_drop_id drop_drop)
    with cs sl True show ?thesis
      by (subst split255_loop.simps) (auto intro!: exI[of _ "take 255 (drop p s) # cs"])
  next
    case False
    with "1.prems" show ?thesis
      by (subst split255_loop.simps) (auto simp: go_slice_from_def)
  qed
qed

text \<open>
  Claim C6. For every string \<open>s\<close>, split255 returns (no slice expression of it is out of
  range) a list of chunks of at most 255 bytes each whose concatenation, in order, is
  \<open>s\<close>; a string shorter than 255 bytes gives the one-element list \<open>[s]\<close>. NewTXT on a
  Service with that Text puts exactly this list in the record's Txt field.
\<close>

theorem split255_chunks:
  "\<exists>sx. split255 s = Inr sx \<and> (\<forall>c\<in>set sx. length c \<le> 255) \<and> concat sx = s \<and>
     (length s < 255 \<longrightarrow> sx = [s]) \<and>
     (\<forall>svc name. Text svc = s \<longrightarrow> (\<exists>t. NewTXT svc name = Inr t \<and> TXT_Txt t = sx))"
proof (cases "length s < 255")
  case True
  then show ?thesis by (simp add: split255_def NewTXT_def)
next
  case False
  from split255_loop_chunks[of 255 0 s "[]"] obtain cs where
    "split255_loop s 0 255 [] = Inr cs" "\<forall>c\<in>set cs. length c \<le> 255" "concat cs = s"
    by auto
  with False show ?thesis by (simp add: split255_def NewTXT_def)
qed

theorem split255_chunks_witness:
  "split255 ''abc'' = Inr [''abc''] \<and> length ''abc'' \<le> (255::nat) \<and> concat [''abc''] = ''abc''"
  using split255_chunks[of "''abc''"] by (simp add: split255_def)

lemma split255_total: "\<exists>sx. split255 s = Inr sx"
  using split255_loop_chunks[of 255 0 s "[]"] by (auto simp: split255_def)

section \<open>Record headers\<close>

text \<open>
  Claim C10. NewA, NewAAAA, NewCNAME, NewNS and NewTXT give a record whose header has the
  name passed in, class Internet, the Ttl of the Service and the type of the builder;
  NewPTR puts the ttl passed in into the header and the fully-qualified Host of the
  Service into Ptr. The last two conjuncts give the numbers behind the names of the types
  and the class.
\<close>

theorem builders_header:
  "A_Hdr (NewA s n ip) = \<lparr>Hdr_Name = n, Hdr_Rrtype = TypeA, Hdr_Class = ClassINET,
       Hdr_Ttl = Ttl s, Hdr_Rdlength = 0\<rparr> \<and>
   AAAA_Hdr (NewAAAA s n ip) = \<lparr>Hdr_Name = n, Hdr_Rrtype = TypeAAAA, Hdr_Class = ClassINET,
       Hdr_Ttl = Ttl s, Hdr_Rdlength = 0\<rparr> \<and>
   CNAME_Hdr (NewCNAME s n target) = \<lparr>Hdr_Name = n, Hdr_Rrtype = TypeCNAME,
       Hdr_Class = ClassINET, Hdr_Ttl = Ttl s, Hdr_Rdlength = 0\<rparr> \<and>
   NS_Hdr (NewNS s n target) = \<lparr>Hdr_Name = n, Hdr_Rrtype = TypeNS, Hdr_Class = ClassINET,
       Hdr_Ttl = Ttl s, Hdr_Rdlength = 0\<rparr> \<and>
   (\<exists>t. NewTXT s n = Inr t \<and>
        TXT_Hdr t = \<lparr>Hdr_Name = n, Hdr_Rrtype = TypeTXT, Hdr_Class = ClassINET,
          Hdr_Ttl = Ttl s, Hdr_Rdlength = 0\<rparr>) \<and>
   PTR_Hdr (NewPTR s n ttl) = \<lparr>Hdr_Name = n, Hdr_Rrtype = TypePTR, Hdr_Class = ClassINET,
       Hdr_Ttl = ttl, Hdr_Rdlength = 0\<rparr> \<and>
   PTR_Ptr (NewPTR s n ttl) = dns_Fqdn (Host s) \<and>
   dns_IsFqdn (PTR_Ptr (NewPTR s n ttl)) \<and>
   [TypeA, TypeAAAA, TypeCNAME, TypeNS, TypeTXT, TypePTR] = [1, 28, 5, 2, 16, 12] \<and>
   ClassINET = 1"
proof -
  obtain sx where "split255 (Text s) = Inr sx"
    using split255_total by blast
  then have "\<exists>t. NewTXT s n = Inr t \<and>
        TXT_Hdr t = \<lparr>Hdr_Name = n, Hdr_Rrtype = TypeTXT, Hdr_Class = ClassINET,
          Hdr_Ttl = Ttl s, Hdr_Rdlength = 0\<rparr>"
    by (simp add: NewTXT_def)
  moreover have "dns_IsFqdn (dns_Fqdn (Host s))"
    by (simp add: dns_Fqdn_def dns_IsFqdn_def)
  ultimately show ?thesis
    by (simp add: NewA_def NewAAAA_def NewCNAME_def NewNS_def NewPTR_def
        TypeA_def TypeAAAA_def TypeCNAME_def TypeNS_def TypeTXT_def TypePTR_def ClassINET_def)
qed

theorem builders_header_witness:
  "Hdr_Ttl (A_Hdr (NewA (svc ''/a/b'' ''x'') ''a.b.'' [10, 0, 0, 1])) = 0 \<and>
   Hdr_Ttl (PTR_Hdr (NewPTR (svc ''/a/b'' ''x'') ''a.b.'' 60)) = 60 \<and>
   PTR_Ptr (NewPTR (svc ''/a/b'' ''x'') ''a.b.'' 60) = ''.''"
  using builders_header[of "svc ''/a/b'' ''x''" "''a.b.''" "[10, 0, 0, 1]" "[]" 60]
  by (simp add: svc_def dns_Fqdn_def dns_IsFqdn_def)

section \<open>SRV targets\<close>

text \<open>
  Claim C9. With TargetStrip 1 and the synthesized name \<open>a.b.c.d.\<close> as Host (the name
  the caller puts in place of an IP address such as 1.2.3.4 before it builds the record),
  NewSRV gives the Target \<open>b.c.d.\<close>, whatever the other fields are.
\<close>

theorem NewSRV_strip_example:
  "\<exists>r. NewSRV (s\<lparr>Host := ''a.b.c.d.'', TargetStrip := 1\<rparr>) name weight = Inr r \<and>
       SRV_Target r = ''b.c.d.''"
  by (simp add: NewSRV_def NewSRV_loop.simps dns_NextLabel_def NextLabel_loop.simps
      dns_Fqdn_def dns_IsFqdn_def go_slice_from_def backslash_def Let_def)

section \<open>Group selection\<close>

text \<open>
  Claim C7. On a top-depth entry of group \<open>x\<close> followed by three deeper entries of
  groups empty, \<open>x\<close> and \<open>z\<close>, Group returns the first three entries in input order.
\<close>

theorem Group_example:
  "GroupSx [s0\<lparr>Key := ''/a/b'', Group := ''x''\<rparr>, s1\<lparr>Key := ''/a/b/c'', Group := ''''\<rparr>,
            s2\<lparr>Key := ''/a/b/c'', Group := ''x''\<rparr>, s3\<lparr>Key := ''/a/b/c'', Group := ''z''\<rparr>] =
   [s0\<lparr>Key := ''/a/b'', Group := ''x''\<rparr>, s1\<lparr>Key := ''/a/b/c'', Group := ''''\<rparr>,
    s2\<lparr>Key := ''/a/b/c'', Group := ''x''\<rparr>]"
  by (simp add: GroupSx_def Group_loop.simps Group_body_def strings_Count_def Let_def)

text \<open>
  Claim C2. The claim says that Group gives a one-element list back untouched. The loop
  leaves its only round through \<open>continue\<close>, and the function returns \<open>ret\<close>, which
  is still empty: on the list of one Service with Key \<open>/a/b\<close> and no group the result
  is the empty list.
\<close>

theorem Group_single_empty:
  "GroupSx [svc ''/a/b'' ''''] = [] \<and> GroupSx [svc ''/a/b'' ''''] \<noteq> [svc ''/a/b'' '''']"
  by (simp add: GroupSx_def Group_loop.simps Group_body_def svc_def strings_Count_def Let_def)

lemma Group_loop_end: "Group_loop len sl len (arr, g, c, n) = take n arr"
  by (simp add: Group_loop.simps)

lemma Group_loop_skip:
  assumes "i < len" "strings_Count (Key (arr ! i)) CHR ''/'' = sl" "Group (arr ! i) = []"
  shows "Group_loop len sl i (arr, g, True, n) = Group_loop len sl (i + 1) (arr, g, True, n)"
  using assms by (subst Group_loop.simps) (simp add: Group_body_def)

lemma Group_loop_establish:
  assumes "i < len" "strings_Count (Key (arr ! i)) CHR ''/'' = sl" "Group (arr ! i) \<noteq> []"
  shows "Group_loop len sl i (arr, [], True, n) =
         Group_loop len sl (i + 1) (arr, Group (arr ! i), True, n)"
  using assms by (subst Group_loop.simps) (simp add: Group_body_def)

lemma Group_loop_disagree:
  assumes "i < len" "strings_Count (Key (arr ! i)) CHR ''/'' = sl" "Group (arr ! i) \<noteq> []"
    "g \<noteq> []" "Group (arr ! i) \<noteq> g"
  shows "Group_loop len sl i (arr, g, True, n) = arr"
  using assms by (subst Group_loop.simps) (simp add: Group_body_def)

lemma Group_loop_skip_run:
  assumes "\<forall>s\<in>set mid. strings_Count (Key s) CHR ''/'' = sl \<and> Group s = []"
  shows "Group_loop (length (pre @ mid @ post)) sl (length pre) (pre @ mid @ post, g, True, n) =
         Group_loop (length (pre @ mid @ post)) sl (length pre + length mid)
           (pre @ mid @ post, g, True, n)"
  using assms
proof (induction mid arbitrary: pre)
  case Nil
  show ?case by simp
next
  case (Cons m mid)
  have "Group_loop (length (pre @ (m # mid) @ post)) sl (length pre)
          (pre @ (m # mid) @ post, g, True, n) =
        Group_loop (length (pre @ (m # mid) @ post)) sl (length pre + 1)
          (pre @ (m # mid) @ post, g, True, n)"
    using Cons.prems by (intro Group_loop_skip) simp_all
  also have "\<dots> = Group_loop (length ((pre @ [m]) @ mid @ post)) sl (length (pre @ [m]))
          ((pre @ [m]) @ mid @ post, g, True, n)"
    by simp
  also have "\<dots> = Group_loop (length ((pre @ [m]) @ mid @ post)) sl
          (length (pre @ [m]) + length mid) ((pre @ [m]) @ mid @ post, g, True, n)"
    using Cons.prems by (intro Cons.IH) simp
  finally show ?case by simp
qed

lemma filter_le_one_cases:
  assumes "length (filter P xs) \<le> 1"
  shows "(\<forall>x\<in>set xs. \<not> P x) \<or>
         (\<exists>pre a post. xs = pre @ a # post \<and> P a \<and>
            (\<forall>x\<in>set pre. \<not> P x) \<and> (\<forall>x\<in>set post. \<not> P x))"
proof (cases "\<exists>x\<in>set xs. P x")
  case False
  then show ?thesis by blast
next
  case True
  from split_list_first_prop[OF True]
  obtain pre a post where d: "xs = pre @ a # post" "P a" "\<forall>x\<in>set pre. \<not> P x"
    by blast
  with assms have "filter P post = []"
    by simp
  then have "\<forall>x\<in>set post. \<not> P x"
    by (simp add: filter_empty_conv)
  with d show ?thesis by blast
qed

text \<open>
  Claim C3. When every entry of a non-empty list is at the depth of the first one and at
  most one entry has a group, every round of the loop ends in \<open>continue\<close>, \<open>ret\<close> is
  never seeded, and Group returns the empty list, which is not the input.
\<close>

theorem Group_top_only_empty:
  assumes "sx \<noteq> []"
    and "\<forall>s\<in>set sx. strings_Count (Key s) CHR ''/'' = strings_Count (Key (sx ! 0)) CHR ''/''"
    and "length (filter (\<lambda>s. Group s \<noteq> []) sx) \<le> 1"
  shows "GroupSx sx = [] \<and> GroupSx sx \<noteq> sx"
proof -
  let ?sl = "strings_Count (Key (sx ! 0)) CHR ''/''"
  from filter_le_one_cases[OF assms(3)]
  have "Group_loop (length sx) ?sl 0 (sx, [], True, 0) = []"
  proof (elim disjE exE conjE)
    assume e: "\<forall>x\<in>set sx. \<not> Group x \<noteq> []"
    have "Group_loop (length ([] @ sx @ [])) ?sl (length ([]::Service list))
            ([] @ sx @ [], [], True, 0) =
          Group_loop (length ([] @ sx @ [])) ?sl (length ([]::Service list) + length sx)
            ([] @ sx @ [], [], True, 0)"
      using e assms(2) by (intro Group_loop_skip_run) simp
    then show ?thesis by (simp add: Group_loop_end)
  next
    fix pre a post
    assume d: "sx = pre @ a # post" "Group a \<noteq> []" "\<forall>x\<in>set pre. \<not> Group x \<noteq> []"
      "\<forall>x\<in>set post. \<not> Group x \<noteq> []"
    let ?len = "length sx"
    have "Group_loop ?len ?sl 0 (sx, [], True, 0) =
          Group_loop ?len ?sl (length pre) (sx, [], True, 0)"
      using Group_loop_skip_run[of pre ?sl "[]" "a # post" "[]" 0] d assms(2) by simp
    also have "\<dots> = Group_loop ?len ?sl (length pre + 1) (sx, Group a, True, 0)"
      using Group_loop_establish[of "length pre" ?len sx ?sl 0] d assms(2) by simp
    also have "\<dots> = Group_loop ?len ?sl (length pre + 1 + length post) (sx, Group a, True, 0)"
      using Group_loop_skip_run[of post ?sl "pre @ [a]" "[]" "Group a" 0] d assms(2) by simp
    also have "\<dots> = []"
      using d(1) by (simp add: Group_loop_end)
    finally show ?thesis .
  qed
  with assms(1) show ?thesis by (simp add: GroupSx_def)
qed

theorem Group_top_only_empty_witness:
  "GroupSx [svc ''/a/b'' '''', svc ''/a/c'' ''x'', svc ''/a/d'' ''''] = []"
  using Group_top_only_empty[of "[svc ''/a/b'' '''', svc ''/a/c'' ''x'', svc ''/a/d'' '''']"]
  by (simp add: svc_def strings_Count_def)

text \<open>
  Where the loop does give up on grouping: when every entry before the second entry with
  a group is at top depth, and the first two entries with a group are at top depth and
  their groups differ, Group returns its input.
\<close>

lemma Group_first_disagreement:
  assumes "sx = pre @ a # mid @ b # rest"
    and "\<forall>s\<in>set (pre @ mid).
           strings_Count (Key s) CHR ''/'' = strings_Count (Key (sx ! 0)) CHR ''/'' \<and> Group s = []"
    and "strings_Count (Key a) CHR ''/'' = strings_Count (Key (sx ! 0)) CHR ''/''"
    and "strings_Count (Key b) CHR ''/'' = strings_Count (Key (sx ! 0)) CHR ''/''"
    and "Group a \<noteq> []" "Group b \<noteq> []" "Group a \<noteq> Group b"
  shows "GroupSx sx = sx"
proof -
  let ?sl = "strings_Count (Key (sx ! 0)) CHR ''/''"
  let ?len = "length sx"
  have "Group_loop ?len ?sl 0 (sx, [], True, 0) =
        Group_loop ?len ?sl (length pre) (sx, [], True, 0)"
    using Group_loop_skip_run[of pre ?sl "[]" "a # mid @ b # rest" "[]" 0] assms(1,2) by simp
  also have "\<dots> = Group_loop ?len ?sl (length pre + 1) (sx, Group a, True, 0)"
    using Group_loop_establish[of "length pre" ?len sx ?sl 0] assms(1,3,5) by simp
  also have "\<dots> = Group_loop ?len ?sl (length pre + 1 + length mid) (sx, Group a, True, 0)"
    using Group_loop_skip_run[of mid ?sl "pre @ [a]" "b # rest" "Group a" 0] assms(1,2) by simp
  also have "\<dots> = sx"
    using Group_loop_disagree[of "length pre + 1 + length mid" ?len sx ?sl "Group a" 0]
      assms(1,4,5,6,7)
    by (simp add: nth_append)
  finally show ?thesis using assms(1) by (simp add: GroupSx_def)
qed

text \<open>
  Claim C1. The claim says that two top-depth entries with different groups always make
  Group return its input. The loop tests for a disagreement only while \<open>count\<close> is set,
  and a top-depth entry whose group agrees with the one established falls through to the
  steps for a deeper level, which clear \<open>count\<close>. On three entries at the same depth
  with the groups \<open>x\<close>, \<open>x\<close>, \<open>y\<close> the disagreeing entry is therefore filtered out and
  the first two are returned, while the same entries in the order \<open>x\<close>, \<open>y\<close>, \<open>x\<close> make
  Group return its input.
\<close>

theorem Group_disagree_after_agree:
  "GroupSx [svc ''/a/b'' ''x'', svc ''/a/b'' ''x'', svc ''/a/b'' ''y''] =
     [svc ''/a/b'' ''x'', svc ''/a/b'' ''x''] \<and>
   GroupSx [svc ''/a/b'' ''x'', svc ''/a/b'' ''x'', svc ''/a/b'' ''y''] \<noteq>
     [svc ''/a/b'' ''x'', svc ''/a/b'' ''x'', svc ''/a/b'' ''y''] \<and>
   GroupSx [svc ''/a/b'' ''x'', svc ''/a/b'' ''y'', svc ''/a/b'' ''x''] =
     [svc ''/a/b'' ''x'', svc ''/a/b'' ''y'', svc ''/a/b'' ''x'']"
  by (simp add: GroupSx_def Group_loop.simps Group_body_def svc_def strings_Count_def Let_def)

section \<open>Keys and domain names\<close>

lemma reverse_loop_nth:
  "j < length l \<Longrightarrow> i \<le> Suc j \<Longrightarrow>
   length (reverse_loop l i j) = length l \<and>
   (\<forall>k<length l. reverse_loop l i j ! k = (if i \<le> k \<and> k \<le> j then l ! (i + j - k) else l ! k))"
proof (induction l i j rule: reverse_loop.induct)
  case (1 l i j)
  show ?case
  proof (cases "i < j")
    case False
    with "1.prems" have "i = j \<or> i = Suc j" by auto
    with False show ?thesis
      by (subst reverse_loop.simps, subst (2) reverse_loop.simps) auto
  next
    case True
    let ?l' = "l[i := l ! j, j := l ! i]"
    have rl: "reverse_loop l i j = reverse_loop ?l' (i + 1) (j - 1)"
      using True by (subst reverse_loop.simps) simp
    have IH: "length (reverse_loop ?l' (i + 1) (j - 1)) = length ?l' \<and>
      (\<forall>k<length ?l'. reverse_loop ?l' (i + 1) (j - 1) ! k =
         (if i + 1 \<le> k \<and> k \<le> j - 1 then ?l' ! (i + 1 + (j - 1) - k) else ?l' ! k))"
      using "1.IH"[OF True] "1.prems" True by simp
    show ?thesis
    proof (intro conjI allI impI)
      show "length (reverse_loop l i j) = length l"
        using IH rl by simp
    next
      fix k assume k: "k < length l"
      then have "reverse_loop l i j ! k =
         (if i + 1 \<le> k \<and> k \<le> j - 1 then ?l' ! (i + 1 + (j - 1) - k) else ?l' ! k)"
        using IH rl by simp
      also have "\<dots> = (if i \<le> k \<and> k \<le> j then l ! (i + j - k) else l ! k)"
        using True "1.prems" k by (auto simp: nth_list_update)
      finally show "reverse_loop l i j ! k =
          (if i \<le> k \<and> k \<le> j then l ! (i + j - k) else l ! k)" .
    qed
  qed
qed

lemma reverse_loop_rev: "reverse_loop l 0 (length l - 1) = rev l"
proof (cases "l = []")
  case True
  then show ?thesis by (simp add: reverse_loop.simps)
next
  case False
  then have j: "length l - 1 < length l" by simp
  from reverse_loop_nth[OF j, of 0] show ?thesis
    by (intro nth_equalityI) (auto simp: rev_nth)
qed


lemma PathWithWildcard_loop_None:
  "''*'' \<notin> set l \<Longrightarrow> PathWithWildcard_loop l i = None"
  by (induction l arbitrary: i) auto

lemma PathWithWildcard_loop_Some:
  "''*'' \<in> set l \<Longrightarrow>
   PathWithWildcard_loop l i = Some (i + length (takeWhile (\<lambda>k. k \<noteq> ''*'') l))"
  by (induction l arbitrary: i) auto

text \<open>
  Claim C8. For a name none of whose labels is \<open>*\<close>, PathWithWildcard returns the path
  of Path and the flag false. For a name with a label \<open>*\<close>, it returns the path joined
  from the root prefix and the reversed labels before the first \<open>*\<close> among them, and
  the flag true.
\<close>

theorem PathWithWildcard_spec:
  "(''*'' \<notin> set (dns_SplitDomainName s) \<longrightarrow> PathWithWildcard s = (Path s, False)) \<and>
   (''*'' \<in> set (rev (dns_SplitDomainName s)) \<longrightarrow>
      PathWithWildcard s =
        (path_Join (''/skydns/'' # takeWhile (\<lambda>k. k \<noteq> ''*'') (rev (dns_SplitDomainName s))),
         True))"
proof -
  let ?l = "dns_SplitDomainName s"
  have r: "reverse_loop ?l 0 (length ?l - 1) = rev ?l"
    by (rule reverse_loop_rev)
  have n: "''*'' \<notin> set ?l \<Longrightarrow> PathWithWildcard s = (Path s, False)"
    unfolding PathWithWildcard_def Path_def Let_def r
    by (simp add: PathWithWildcard_loop_None)
  have w: "''*'' \<in> set (rev ?l) \<Longrightarrow> PathWithWildcard s =
        (path_Join (''/skydns/'' # takeWhile (\<lambda>k. k \<noteq> ''*'') (rev ?l)), True)"
    unfolding PathWithWildcard_def Let_def r
    by (simp add: PathWithWildcard_loop_Some takeWhile_eq_take[symmetric])
  from n w show ?thesis by blast
qed

lemma SplitDomainName_plain_example:
  "dns_SplitDomainName ''service.skydns.local.'' = [''service'', ''skydns'', ''local'']"
  by code_simp

lemma SplitDomainName_wildcard_example:
  "dns_SplitDomainName ''service.*.skydns.local.'' = [''service'', ''*'', ''skydns'', ''local'']"
  by code_simp

lemma path_Join_example:
  "path_Join [''/skydns/'', ''local'', ''skydns''] = ''/skydns/local/skydns''"
  by code_simp

lemma Path_example:
  "Path ''service.skydns.local.'' = ''/skydns/local/skydns/service''"
  by code_simp

theorem PathWithWildcard_spec_witness:
  "PathWithWildcard ''service.skydns.local.'' = (''/skydns/local/skydns/service'', False) \<and>
   PathWithWildcard ''service.*.skydns.local.'' = (''/skydns/local/skydns'', True)"
  using PathWithWildcard_spec[of "''service.skydns.local.''"]
    PathWithWildcard_spec[of "''service.*.skydns.local.''"]
  by (simp add: SplitDomainName_plain_example SplitDomainName_wildcard_example
      path_Join_example Path_example)

section \<open>SRV targets, label by label\<close>

















section \<open>From a name to its key and back\<close>

lemma strings_Split_nonempty: "strings_Split s c \<noteq> []"
  by (induction s) auto

lemma strings_Split_concat: "concat (map (\<lambda>l. l @ [c]) (strings_Split s c)) = s @ [c]"
proof (induction s)
  case Nil
  show ?case by simp
next
  case (Cons x xs)
  obtain h t where r: "strings_Split xs c = h # t"
    using strings_Split_nonempty[of xs c] by (cases "strings_Split xs c") auto
  with Cons show ?case by auto
qed



lemma esc_state_plain:
  "CHR ''.'' \<notin> set l \<Longrightarrow> backslash \<notin> set l \<Longrightarrow> esc_state False l = Some False"
  by (induction l) auto
























lemma wf_label_plain:
  assumes "l \<noteq> []" "CHR ''.'' \<notin> set l" "CHR ''/'' \<notin> set l" "backslash \<notin> set l"
  shows "wf_label l"
proof -
  from assms(1) have "last l \<in> set l" by (rule last_in_set)
  with assms(2) have "last l \<noteq> CHR ''.''" by auto
  with assms show ?thesis
    by (simp add: wf_label_def esc_state_plain)
qed

end
